theory Spec2Isabelle
  imports Main "HOL-Library.Sublist"
begin

section \<open>Text lines and the declaration pattern\<close>

text \<open>
  A line is a Python \<open>str\<close>. The model reads a \<^typ>\<open>char\<close> as the code point of the
  same number, so it covers text whose code points lie below 256 (all of ASCII). The
  classes \<open>\s\<close> and \<open>\w\<close> of Python's \<open>re\<close> module on \<open>str\<close> patterns are the
  Unicode ones; below 256 they are the two tables that follow.
\<close>

definition NL :: char where
  "NL = CHR 0x0A"

definition TAB :: char where
  "TAB = CHR 0x09"

definition is_space :: "char \<Rightarrow> bool" where
  "is_space c = (let n = (of_char c :: nat) in
     (9 \<le> n \<and> n \<le> 13) \<or> (28 \<le> n \<and> n \<le> 32) \<or> n = 133 \<or> n = 160)"

definition is_word :: "char \<Rightarrow> bool" where
  "is_word c = (let n = (of_char c :: nat) in
     (48 \<le> n \<and> n \<le> 57) \<or> (65 \<le> n \<and> n \<le> 90) \<or> n = 95 \<or> (97 \<le> n \<and> n \<le> 122) \<or>
     n = 170 \<or> n = 178 \<or> n = 179 \<or> n = 181 \<or> n = 185 \<or> n = 186 \<or>
     (188 \<le> n \<and> n \<le> 190) \<or> (192 \<le> n \<and> n \<le> 214) \<or> (216 \<le> n \<and> n \<le> 246) \<or>
     248 \<le> n)"

text \<open>\<open>strip_prefix p s\<close> is the rest of \<open>s\<close> after the literal \<open>p\<close>, when \<open>s\<close> starts with it.\<close>

definition strip_prefix :: "string \<Rightarrow> string \<Rightarrow> string option" where
  "strip_prefix p s = (if prefix p s then Some (drop (length p) s) else None)"

text \<open>
  \<open>re.match(r'\s*(\w+)\s*:=\s*(spatial\.)?New(BasicRoom|BasicRoomOrchestrator)\(', line)\<close>,
  returning \<open>match.group(1)\<close>. The match is anchored at the start of the line. No
  character is both of \<open>\s\<close> and of \<open>\w\<close>, and \<open>:\<close>, \<open>s\<close> and \<open>N\<close> are no spaces, so
  every greedy repetition takes its longest run and backtracking finds nothing else.
\<close>

definition decl_match :: "string \<Rightarrow> string option" where
  "decl_match line =
     (let s1 = dropWhile is_space line;
          var_name = takeWhile is_word s1;
          s2 = dropWhile is_space (dropWhile is_word s1)
      in if var_name = [] then None
         else case strip_prefix '':='' s2 of
           None \<Rightarrow> None
         | Some s3 \<Rightarrow>
             (let s4 = dropWhile is_space s3;
                  s5 = (case strip_prefix ''spatial.'' s4 of Some t \<Rightarrow> t | None \<Rightarrow> s4)
              in case strip_prefix ''New'' s5 of
                   None \<Rightarrow> None
                 | Some s6 \<Rightarrow>
                     if prefix ''BasicRoom('' s6 \<or> prefix ''BasicRoomOrchestrator('' s6
                     then Some var_name else None))"

section \<open>The rewriter\<close>

text \<open>The synthesized line \<open>f"\t{var_name}.ConnectToEventBus(eventBus)\n"\<close>.\<close>

definition connect_line :: "string \<Rightarrow> string" where
  "connect_line var_name = TAB # var_name @ ''.ConnectToEventBus(eventBus)'' @ [NL]"

text \<open>The variables the brace scan updates; Python's integers are unbounded.\<close>

record scan_state =
  bracket_count :: int
  found_opening :: bool
  output_lines :: "string list"

text \<open>
  The \<open>for char in current_line\<close> loop. Its \<open>break\<close> leaves the rest of the line
  unread, after the synthesized line was appended to \<open>output_lines\<close>.
\<close>

fun char_loop :: "string \<Rightarrow> string \<Rightarrow> scan_state \<Rightarrow> scan_state" where
  "char_loop var_name [] st = st"
| "char_loop var_name (c # cs) st =
     (if c = CHR ''{'' then
        char_loop var_name cs (st\<lparr>bracket_count := bracket_count st + 1, found_opening := True\<rparr>)
      else if c = CHR ''}'' then
        (let st1 = st\<lparr>bracket_count := bracket_count st - 1\<rparr>
         in if found_opening st1 \<and> bracket_count st1 = 0
            then st1\<lparr>output_lines := output_lines st1 @ [connect_line var_name]\<rparr>
            else char_loop var_name cs st1)
      else char_loop var_name cs st)"

text \<open>
  The inner \<open>while j < len(lines)\<close> loop, from \<open>j\<close> on; it returns the final \<open>j\<close> and
  the variables. The test after the character loop reads the variables again, and
  its \<open>break\<close> comes before the line is appended.
\<close>

function inner_loop :: "string list \<Rightarrow> string \<Rightarrow> nat \<Rightarrow> nat \<Rightarrow> scan_state \<Rightarrow> nat \<times> scan_state" where
  "inner_loop lines var_name i j st =
     (if j < length lines then
        (let current_line = lines ! j;
             st1 = char_loop var_name current_line st
         in if found_opening st1 \<and> bracket_count st1 = 0 then (j, st1)
            else inner_loop lines var_name i (j + 1)
                   (if j > i then st1\<lparr>output_lines := output_lines st1 @ [current_line]\<rparr>
                    else st1))
      else (j, st))"
  by pat_completeness auto
termination
  by (relation "measure (\<lambda>(lines, var_name, i, j, st). length lines - j)") auto

declare inner_loop.simps [simp del]

lemma inner_loop_ge: "inner_loop lines v i j st = (j', st') \<Longrightarrow> j \<le> j'"
proof (induction lines v i j st rule: inner_loop.induct)
  case (1 lines v i j st)
  show ?case
  proof (cases "j < length lines")
    case False
    with "1.prems" show ?thesis by (simp add: inner_loop.simps[of lines v i j])
  next
    case True
    let ?st1 = "char_loop v (lines ! j) st"
    show ?thesis
    proof (cases "found_opening ?st1 \<and> bracket_count ?st1 = 0")
      case True
      with \<open>j < length lines\<close> "1.prems" show ?thesis
        by (simp add: inner_loop.simps[of lines v i j] Let_def)
    next
      case False
      with \<open>j < length lines\<close> "1.prems" "1.IH"[OF \<open>j < length lines\<close> refl refl False]
      show ?thesis by (simp add: inner_loop.simps[of lines v i j] Let_def split: if_splits)
    qed
  qed
qed

text \<open>
  The outer \<open>while i < len(lines)\<close> loop, from \<open>i\<close> on with \<open>output_lines\<close> as built so
  far; it returns the final \<open>output_lines\<close>.
\<close>

function outer_loop :: "string list \<Rightarrow> nat \<Rightarrow> string list \<Rightarrow> string list" where
  "outer_loop lines i out =
     (if i < length lines then
        (let line = lines ! i;
             out1 = out @ [line]
         in case decl_match line of
              None \<Rightarrow> outer_loop lines (i + 1) out1
            | Some var_name \<Rightarrow>
                (case inner_loop lines var_name i i
                        \<lparr>bracket_count = 0, found_opening = False, output_lines = out1\<rparr> of
                   (j, st) \<Rightarrow> outer_loop lines (j + 1) (output_lines st)))
      else out)"
  by pat_completeness auto
termination
proof (relation "measure (\<lambda>(lines, i, out). length lines - i)", goal_cases)
  case 1
  show ?case by simp
next
  case 2
  then show ?case by simp
next
  case 3
  then show ?case by (auto dest: inner_loop_ge[OF sym])
qed

declare outer_loop.simps [simp del]

definition rewrite_lines :: "string list \<Rightarrow> string list" where
  "rewrite_lines lines = outer_loop lines 0 []"

section \<open>The file and the command line\<close>

text \<open>
  \<open>open(filename, 'r')\<close> reads in text mode with universal newlines: a carriage
  return followed by a newline, and a carriage return alone, are handed to the
  program as one newline. \<open>f.readlines()\<close> cuts the translated text after each
  newline; the last line has none when the text does not end with one.
  \<open>open(filename, 'w')\<close> writes in text mode: \<open>f.writelines(output_lines)\<close> writes
  the lines one after the other, each newline as the line separator of the platform
  (\<open>os.linesep\<close>).
\<close>

definition CR :: char where
  "CR = CHR 0x0D"

fun universal_newlines :: "string \<Rightarrow> string" where
  "universal_newlines [] = []"
| "universal_newlines [c] = [if c = CR then NL else c]"
| "universal_newlines (c # d # cs) =
     (if c = CR \<and> d = NL then NL # universal_newlines cs
      else if c = CR then NL # universal_newlines (d # cs)
      else c # universal_newlines (d # cs))"

fun readlines :: "string \<Rightarrow> string list" where
  "readlines [] = []"
| "readlines (c # cs) =
     (if c = NL then [c] # readlines cs
      else case readlines cs of [] \<Rightarrow> [[c]] | l # ls \<Rightarrow> (c # l) # ls)"

definition writelines :: "string \<Rightarrow> string list \<Rightarrow> string" where
  "writelines sep ls = concat (map (\<lambda>c. if c = NL then sep else [c]) (concat ls))"

text \<open>
  The world of the program. A path names nothing, a directory or a regular file; a
  regular file may or may not be opened for reading and for writing by the process,
  and its content is a sequence of characters, or bytes that the default encoding
  does not decode (\<open>None\<close>). The world also holds the line separator of the platform,
  the calls of \<open>open\<close> that succeeded (path and mode) and the lines printed to standard
  output. The device is taken to work: a write that was opened goes through.
\<close>

record text_file =
  readable :: bool
  writable :: bool
  content :: "string option"

datatype node = Directory | Regular text_file

record world =
  files :: "string \<rightharpoonup> node"
  linesep :: string
  opens :: "(string \<times> string) list"
  stdout :: "string list"

text \<open>The exceptions that \<open>open\<close> and \<open>readlines\<close> raise; the script catches none.\<close>

datatype error = FileNotFoundError | IsADirectoryError | PermissionError | UnicodeDecodeError

text \<open>\<open>open(filename, 'r')\<close>: the file, or the exception.\<close>

definition open_r :: "string \<Rightarrow> world \<Rightarrow> (error + text_file) \<times> world" where
  "open_r filename w =
     (case files w filename of
        None \<Rightarrow> (Inl FileNotFoundError, w)
      | Some Directory \<Rightarrow> (Inl IsADirectoryError, w)
      | Some (Regular f) \<Rightarrow>
          if readable f then (Inr f, w\<lparr>opens := opens w @ [(filename, ''r'')]\<rparr>)
          else (Inl PermissionError, w))"

text \<open>\<open>f.readlines()\<close> decodes the bytes, translates the newlines and cuts the lines.\<close>

definition f_readlines :: "text_file \<Rightarrow> error + string list" where
  "f_readlines f =
     (case content f of
        None \<Rightarrow> Inl UnicodeDecodeError
      | Some s \<Rightarrow> Inr (readlines (universal_newlines s)))"

text \<open>
  \<open>open(filename, 'w')\<close> creates the file when the path names nothing and empties it
  when it is there.
\<close>

definition open_w :: "string \<Rightarrow> world \<Rightarrow> (error + text_file) \<times> world" where
  "open_w filename w =
     (case files w filename of
        None \<Rightarrow>
          (let f = \<lparr>readable = True, writable = True, content = Some []\<rparr>
           in (Inr f, w\<lparr>files := (files w)(filename \<mapsto> Regular f),
                         opens := opens w @ [(filename, ''w'')]\<rparr>))
      | Some Directory \<Rightarrow> (Inl IsADirectoryError, w)
      | Some (Regular f) \<Rightarrow>
          if writable f then
            (let f' = f\<lparr>content := Some []\<rparr>
             in (Inr f', w\<lparr>files := (files w)(filename \<mapsto> Regular f'),
                           opens := opens w @ [(filename, ''w'')]\<rparr>))
          else (Inl PermissionError, w))"

definition f_writelines :: "string \<Rightarrow> text_file \<Rightarrow> string list \<Rightarrow> world \<Rightarrow> world" where
  "f_writelines filename f ls w =
     w\<lparr>files := (files w)(filename \<mapsto> Regular (f\<lparr>content := Some (writelines (linesep w) ls)\<rparr>))\<rparr>"

text \<open>
  The function of the script: read the lines, run the loops, write the result back.
  An exception ends it where it is raised, with the world as it is then.
\<close>

definition fix_eventbus_connections :: "string \<Rightarrow> world \<Rightarrow> (error + unit) \<times> world" where
  "fix_eventbus_connections filename w =
     (case open_r filename w of
        (Inl e, w1) \<Rightarrow> (Inl e, w1)
      | (Inr f, w1) \<Rightarrow>
          (case f_readlines f of
             Inl e \<Rightarrow> (Inl e, w1)
           | Inr lines \<Rightarrow>
               (let out = rewrite_lines lines
                in case open_w filename w1 of
                     (Inl e, w2) \<Rightarrow> (Inl e, w2)
                   | (Inr f', w2) \<Rightarrow> (Inr (), f_writelines filename f' out w2))))"




section \<open>Vocabulary for the brace scan\<close>

text \<open>
  What the scan has counted once it has read a text \<open>s\<close> from fresh variables:
  \<open>depth s\<close> is the running count (opening braces less closing braces), \<open>opened s\<close>
  says that an opening brace was seen. From variables \<open>bc\<close> and \<open>fo\<close>, reading \<open>q\<close>
  leaves the count at zero after an opening brace when \<open>zero_from bc fo q\<close>. The
  character loop breaks in a line when one of its closing braces does that
  (\<open>breaks_in\<close>); \<open>never_zero t\<close> says that no point of the text \<open>t\<close> does.
\<close>

definition depth :: "string \<Rightarrow> int" where
  "depth s = int (count_list s CHR ''{'') - int (count_list s CHR ''}'')"

definition opened :: "string \<Rightarrow> bool" where
  "opened s = (CHR ''{'' \<in> set s)"

definition zero_from :: "int \<Rightarrow> bool \<Rightarrow> string \<Rightarrow> bool" where
  "zero_from bc fo q = ((fo \<or> opened q) \<and> bc + depth q = 0)"

definition zero_after :: "string \<Rightarrow> bool" where
  "zero_after q = zero_from 0 False q"

definition breaks_in :: "int \<Rightarrow> bool \<Rightarrow> string \<Rightarrow> bool" where
  "breaks_in bc fo cs = (\<exists>q \<in> set (prefixes cs). q \<noteq> [] \<and> last q = CHR ''}'' \<and> zero_from bc fo q)"

definition never_zero :: "string \<Rightarrow> bool" where
  "never_zero t = (\<forall>q \<in> set (prefixes t). \<not> zero_after q)"

lemma depth_simps [simp]:
  "depth [] = 0"
  "depth (c # cs) = (if c = CHR ''{'' then 1 else if c = CHR ''}'' then - 1 else 0) + depth cs"
  "depth (s @ t) = depth s + depth t"
  by (simp_all add: depth_def)

lemma opened_simps [simp]:
  "opened [] = False"
  "opened (c # cs) = (c = CHR ''{'' \<or> opened cs)"
  "opened (s @ t) = (opened s \<or> opened t)"
  by (auto simp: opened_def)

lemma zero_from_Cons:
  "zero_from bc fo (c # q) =
     zero_from (bc + (if c = CHR ''{'' then 1 else if c = CHR ''}'' then - 1 else 0))
       (fo \<or> c = CHR ''{'') q"
  by (auto simp: zero_from_def)

lemma zero_from_append:
  "zero_from bc fo (s @ q) = zero_from (bc + depth s) (fo \<or> opened s) q"
  by (auto simp: zero_from_def)

lemma zero_after_append:
  "zero_after (s @ q) = zero_from (depth s) (opened s) q"
  by (simp add: zero_after_def zero_from_append)

lemma breaks_in_iff:
  "breaks_in bc fo cs =
     (\<exists>q. q \<noteq> [] \<and> prefix q cs \<and> last q = CHR ''}'' \<and> zero_from bc fo q)"
  unfolding breaks_in_def Bex_def in_set_prefixes by blast

lemma breaks_in_Nil [simp]: "\<not> breaks_in bc fo []"
  by (simp add: breaks_in_iff)

lemma ex_list_split: "(\<exists>q. Q q) = (Q [] \<or> (\<exists>q. q \<noteq> [] \<and> Q q))"
proof
  assume "\<exists>q. Q q"
  then obtain q where q: "Q q" ..
  show "Q [] \<or> (\<exists>q. q \<noteq> [] \<and> Q q)"
  proof (cases "q = []")
    case True
    with q show ?thesis by simp
  next
    case False
    with q show ?thesis by blast
  qed
next
  assume "Q [] \<or> (\<exists>q. q \<noteq> [] \<and> Q q)"
  then show "\<exists>q. Q q" by blast
qed

lemma ex_prefix_Cons:
  "(\<exists>q. q \<noteq> [] \<and> prefix q (c # cs) \<and> P q) = (\<exists>r. prefix r cs \<and> P (c # r))"
proof
  assume "\<exists>q. q \<noteq> [] \<and> prefix q (c # cs) \<and> P q"
  then obtain q where q: "q \<noteq> []" "prefix q (c # cs)" "P q" by blast
  from q(1) obtain a r where qr: "q = a # r" by (cases q) simp_all
  with q(2) have "a = c" "prefix r cs" by simp_all
  with qr q(3) show "\<exists>r. prefix r cs \<and> P (c # r)" by blast
next
  assume "\<exists>r. prefix r cs \<and> P (c # r)"
  then obtain r where r: "prefix r cs" "P (c # r)" by blast
  have "c # r \<noteq> []" by simp
  moreover from r(1) have "prefix (c # r) (c # cs)" by simp
  ultimately show "\<exists>q. q \<noteq> [] \<and> prefix q (c # cs) \<and> P q" using r(2) by blast
qed

lemma breaks_in_Cons:
  "breaks_in bc fo (c # cs) =
     ((c = CHR ''}'' \<and> fo \<and> bc - 1 = 0) \<or>
      breaks_in (bc + (if c = CHR ''{'' then 1 else if c = CHR ''}'' then - 1 else 0))
        (fo \<or> c = CHR ''{'') cs)"
proof -
  let ?bc = "bc + (if c = CHR ''{'' then 1 else if c = CHR ''}'' then - 1 else 0)"
  let ?fo = "fo \<or> c = CHR ''{''"
  let ?P = "\<lambda>q. last q = CHR ''}'' \<and> zero_from bc fo q"
  let ?Q = "\<lambda>r. prefix r cs \<and> ?P (c # r)"
  have "breaks_in bc fo (c # cs) = (\<exists>r. ?Q r)"
    unfolding breaks_in_iff by (rule ex_prefix_Cons)
  also have "\<dots> = (?Q [] \<or> (\<exists>r. r \<noteq> [] \<and> ?Q r))"
    by (rule ex_list_split)
  also have "?Q [] = (c = CHR ''}'' \<and> fo \<and> bc - 1 = 0)"
    unfolding zero_from_def by (cases "c = CHR ''{''") simp_all
  also have "(\<exists>r. r \<noteq> [] \<and> ?Q r) = breaks_in ?bc ?fo cs"
    unfolding breaks_in_iff zero_from_Cons[of bc fo c] by (simp cong: conj_cong)
  finally show ?thesis .
qed

text \<open>The character loop: it breaks exactly when some closing brace of the line brings the
  count to zero after an opening brace; otherwise it reads the whole line.\<close>

lemma char_loop_breaks:
  "breaks_in (bracket_count st) (found_opening st) cs \<Longrightarrow>
   char_loop v cs st =
     st\<lparr>bracket_count := 0, found_opening := True,
        output_lines := output_lines st @ [connect_line v]\<rparr>"
proof (induction cs arbitrary: st)
  case Nil
  then show ?case by simp
next
  case (Cons c cs)
  show ?case
  proof (cases "c = CHR ''}'' \<and> found_opening st \<and> bracket_count st - 1 = 0")
    case True
    then show ?thesis by (simp add: Let_def)
  next
    case False
    with Cons.prems[unfolded breaks_in_Cons]
    have b: "breaks_in (bracket_count st + (if c = CHR ''{'' then 1 else if c = CHR ''}'' then - 1 else 0))
        (found_opening st \<or> c = CHR ''{'') cs"
      by blast
    show ?thesis
    proof (cases "c = CHR ''{''")
      case True
      with b Cons.IH[of "st\<lparr>bracket_count := bracket_count st + 1, found_opening := True\<rparr>"]
      show ?thesis by simp
    next
      case nb: False
      show ?thesis
      proof (cases "c = CHR ''}''")
        case True
        with b False Cons.IH[of "st\<lparr>bracket_count := bracket_count st - 1\<rparr>"]
        show ?thesis by (simp add: Let_def)
      next
        case False
        with nb b Cons.IH[of st] show ?thesis by simp
      qed
    qed
  qed
qed

lemma char_loop_reads:
  "\<not> breaks_in (bracket_count st) (found_opening st) cs \<Longrightarrow>
   char_loop v cs st =
     st\<lparr>bracket_count := bracket_count st + depth cs,
        found_opening := (found_opening st \<or> opened cs)\<rparr>"
proof (induction cs arbitrary: st)
  case Nil
  then show ?case by simp
next
  case (Cons c cs)
  from Cons.prems have nb: "\<not> (c = CHR ''}'' \<and> found_opening st \<and> bracket_count st - 1 = 0)"
    and b: "\<not> breaks_in (bracket_count st + (if c = CHR ''{'' then 1 else if c = CHR ''}'' then - 1 else 0))
        (found_opening st \<or> c = CHR ''{'') cs"
    by (simp_all add: breaks_in_Cons)
  show ?case
  proof (cases "c = CHR ''{''")
    case True
    with b Cons.IH[of "st\<lparr>bracket_count := bracket_count st + 1, found_opening := True\<rparr>"]
    show ?thesis by simp
  next
    case no: False
    show ?thesis
    proof (cases "c = CHR ''}''")
      case True
      with b nb Cons.IH[of "st\<lparr>bracket_count := bracket_count st - 1\<rparr>"]
      show ?thesis by (auto simp: Let_def)
    next
      case False
      with no b Cons.IH[of st] show ?thesis by simp
    qed
  qed
qed


subsection \<open>The output accumulates; the loops depend on the lines from their index on\<close>

lemma char_loop_out:
  "char_loop v cs (st\<lparr>output_lines := pre @ output_lines st\<rparr>) =
     (char_loop v cs st)\<lparr>output_lines := pre @ output_lines (char_loop v cs st)\<rparr>"
  by (cases "breaks_in (bracket_count st) (found_opening st) cs")
    (simp_all add: char_loop_breaks char_loop_reads)

lemma inner_loop_end:
  "\<not> j < length lines \<Longrightarrow> inner_loop lines v i j st = (j, st)"
  by (simp add: inner_loop.simps[of lines v i j])

lemma inner_loop_stop:
  "j < length lines \<Longrightarrow> found_opening (char_loop v (lines ! j) st) \<Longrightarrow>
   bracket_count (char_loop v (lines ! j) st) = 0 \<Longrightarrow>
   inner_loop lines v i j st = (j, char_loop v (lines ! j) st)"
  by (simp add: inner_loop.simps[of lines v i j] Let_def)

lemma inner_loop_step:
  "j < length lines \<Longrightarrow>
   \<not> (found_opening (char_loop v (lines ! j) st) \<and> bracket_count (char_loop v (lines ! j) st) = 0) \<Longrightarrow>
   inner_loop lines v i j st =
     inner_loop lines v i (j + 1)
       (if j > i
        then (char_loop v (lines ! j) st)
               \<lparr>output_lines := output_lines (char_loop v (lines ! j) st) @ [lines ! j]\<rparr>
        else char_loop v (lines ! j) st)"
  by (subst inner_loop.simps) (auto simp: Let_def)

lemma inner_loop_out:
  "inner_loop lines v i j (st\<lparr>output_lines := pre @ output_lines st\<rparr>) =
     (case inner_loop lines v i j st of
        (j', st') \<Rightarrow> (j', st'\<lparr>output_lines := pre @ output_lines st'\<rparr>))"
proof (induction lines v i j st rule: inner_loop.induct)
  case (1 lines v i j st)
  let ?st1 = "char_loop v (lines ! j) st"
  let ?st2 = "if j > i then ?st1\<lparr>output_lines := output_lines ?st1 @ [lines ! j]\<rparr> else ?st1"
  let ?up = "\<lambda>s. s\<lparr>output_lines := pre @ output_lines s\<rparr>"
  have c: "char_loop v (lines ! j) (?up st) = ?up ?st1"
    by (rule char_loop_out)
  show ?case
  proof (cases "j < length lines")
    case False
    then show ?thesis by (simp add: inner_loop_end)
  next
    case True
    show ?thesis
    proof (cases "found_opening ?st1 \<and> bracket_count ?st1 = 0")
      case z: True
      then have "inner_loop lines v i j st = (j, ?st1)"
        using True by (simp add: inner_loop_stop)
      moreover have "inner_loop lines v i j (?up st) = (j, ?up ?st1)"
        using True z inner_loop_stop[of j lines v "?up st" i] by (simp add: c)
      ultimately show ?thesis by simp
    next
      case z: False
      have s1: "inner_loop lines v i j st = inner_loop lines v i (j + 1) ?st2"
        by (rule inner_loop_step[OF True z])
      have z': "\<not> (found_opening (char_loop v (lines ! j) (?up st)) \<and>
                 bracket_count (char_loop v (lines ! j) (?up st)) = 0)"
        using z by (simp add: c)
      have "inner_loop lines v i j (?up st) = inner_loop lines v i (j + 1) (?up ?st2)"
        unfolding inner_loop_step[OF True z'] c by simp
      also have "\<dots> = (case inner_loop lines v i (j + 1) ?st2 of
          (j', st') \<Rightarrow> (j', ?up st'))"
        by (rule "1.IH"[OF True refl refl z])
      finally show ?thesis unfolding s1 .
    qed
  qed
qed

lemma inner_loop_shift:
  "inner_loop (xs @ ys) v (length xs + i) (length xs + j) st =
     (case inner_loop ys v i j st of (j', st') \<Rightarrow> (length xs + j', st'))"
proof (induction ys v i j st rule: inner_loop.induct)
  case (1 ys v i j st)
  let ?st1 = "char_loop v (ys ! j) st"
  let ?st2 = "if j > i then ?st1\<lparr>output_lines := output_lines ?st1 @ [ys ! j]\<rparr> else ?st1"
  have n: "(xs @ ys) ! (length xs + j) = ys ! j" by simp
  show ?case
  proof (cases "j < length ys")
    case False
    then show ?thesis by (simp add: inner_loop_end)
  next
    case True
    then have l: "length xs + j < length (xs @ ys)" by simp
    show ?thesis
    proof (cases "found_opening ?st1 \<and> bracket_count ?st1 = 0")
      case z: True
      then have "inner_loop ys v i j st = (j, ?st1)"
        using True by (simp add: inner_loop_stop)
      moreover have "inner_loop (xs @ ys) v (length xs + i) (length xs + j) st = (length xs + j, ?st1)"
        using l z inner_loop_stop[of "length xs + j" "xs @ ys" v st "length xs + i"] by (simp only: n)
      ultimately show ?thesis by simp
    next
      case z: False
      have s1: "inner_loop ys v i j st = inner_loop ys v i (j + 1) ?st2"
        by (rule inner_loop_step[OF True z])
      from z have z': "\<not> (found_opening (char_loop v ((xs @ ys) ! (length xs + j)) st) \<and>
                 bracket_count (char_loop v ((xs @ ys) ! (length xs + j)) st) = 0)"
        unfolding n .
      have "inner_loop (xs @ ys) v (length xs + i) (length xs + j) st =
          inner_loop (xs @ ys) v (length xs + i) (length xs + (j + 1)) ?st2"
        unfolding inner_loop_step[OF l z'] n by (simp add: add.assoc)
      also have "\<dots> = (case inner_loop ys v i (j + 1) ?st2 of
          (j', st') \<Rightarrow> (length xs + j', st'))"
        by (rule "1.IH"[OF True refl refl z])
      finally show ?thesis unfolding s1 .
    qed
  qed
qed

lemma outer_loop_out: "outer_loop lines i (pre @ out) = pre @ outer_loop lines i out"
proof (induction lines i out rule: outer_loop.induct)
  case (1 lines i out)
  show ?case
  proof (cases "i < length lines")
    case False
    then show ?thesis by (simp add: outer_loop.simps[of lines i])
  next
    case True
    show ?thesis
    proof (cases "decl_match (lines ! i)")
      case None
      with True "1.IH"(1)[OF True refl refl None] show ?thesis
        by (simp add: outer_loop.simps[of lines i])
    next
      case (Some v)
      let ?st0 = "\<lparr>bracket_count = 0, found_opening = False, output_lines = out @ [lines ! i]\<rparr>"
      obtain j st where r: "inner_loop lines v i i ?st0 = (j, st)" by (cases "inner_loop lines v i i ?st0")
      from inner_loop_out[of lines v i i pre ?st0] r
      have r': "inner_loop lines v i i
          \<lparr>bracket_count = 0, found_opening = False, output_lines = pre @ out @ [lines ! i]\<rparr>
          = (j, st\<lparr>output_lines := pre @ output_lines st\<rparr>)"
        by simp
      from "1.IH"(2)[OF True refl refl Some r[symmetric]] True Some r r' show ?thesis
        by (simp add: outer_loop.simps[of lines i])
    qed
  qed
qed

lemma outer_loop_shift:
  "outer_loop (xs @ ys) (length xs + i) out = outer_loop ys i out"
proof (induction ys i out rule: outer_loop.induct)
  case (1 ys i out)
  show ?case
  proof (cases "i < length ys")
    case False
    then show ?thesis by (simp add: outer_loop.simps[of _ _ out])
  next
    case True
    show ?thesis
    proof (cases "decl_match (ys ! i)")
      case None
      with True "1.IH"(1)[OF True refl refl None] show ?thesis
        by (simp add: outer_loop.simps[of _ _ out] nth_append add.assoc)
    next
      case (Some v)
      let ?st0 = "\<lparr>bracket_count = 0, found_opening = False, output_lines = out @ [ys ! i]\<rparr>"
      obtain j st where r: "inner_loop ys v i i ?st0 = (j, st)" by (cases "inner_loop ys v i i ?st0")
      from inner_loop_shift[of xs ys v i i ?st0] r
      have r': "inner_loop (xs @ ys) v (length xs + i) (length xs + i) ?st0 = (length xs + j, st)"
        by simp
      from "1.IH"(2)[OF True refl refl Some r[symmetric]] True Some r r' show ?thesis
        by (simp add: outer_loop.simps[of _ _ out] nth_append add.assoc)
    qed
  qed
qed


subsection \<open>Whole lines\<close>

lemma never_zero_iff: "never_zero t = (\<forall>q. prefix q t \<longrightarrow> \<not> zero_after q)"
  unfolding never_zero_def Ball_def in_set_prefixes ..

lemma never_zero_not_zero: "never_zero (s @ t) \<Longrightarrow> \<not> zero_after s"
  by (simp add: never_zero_iff)

lemma never_zero_no_break:
  assumes "never_zero (T @ m @ r)"
  shows "\<not> breaks_in (depth T) (opened T) m"
proof
  assume "breaks_in (depth T) (opened T) m"
  then obtain q where q: "prefix q m" "zero_from (depth T) (opened T) q"
    unfolding breaks_in_iff by blast
  from q(1) have "prefix (T @ q) (T @ m @ r)"
    by simp
  with assms have "\<not> zero_after (T @ q)"
    unfolding never_zero_iff by blast
  with q(2) show False by (simp add: zero_after_append)
qed

lemma zero_breaks:
  assumes "zero_after (T @ p @ [CHR ''}''])"
  shows "breaks_in (depth T) (opened T) (p @ CHR ''}'' # s)"
proof -
  have "p @ [CHR ''}''] \<noteq> []" "prefix (p @ [CHR ''}'']) (p @ CHR ''}'' # s)"
    "last (p @ [CHR ''}'']) = CHR ''}''"
    by simp_all
  moreover from assms have "zero_from (depth T) (opened T) (p @ [CHR ''}''])"
    by (simp add: zero_after_append)
  ultimately show ?thesis unfolding breaks_in_iff by blast
qed

lemma char_loop_line_reads:
  assumes "never_zero (T @ m @ r)"
  shows "char_loop v m \<lparr>bracket_count = depth T, found_opening = opened T, output_lines = out\<rparr> =
           \<lparr>bracket_count = depth (T @ m), found_opening = opened (T @ m), output_lines = out\<rparr>"
  using never_zero_no_break[OF assms] by (simp add: char_loop_reads)

lemma char_loop_line_breaks:
  assumes "zero_after (T @ p @ [CHR ''}''])"
  shows "char_loop v (p @ CHR ''}'' # s)
           \<lparr>bracket_count = depth T, found_opening = opened T, output_lines = out\<rparr> =
           \<lparr>bracket_count = 0, found_opening = True, output_lines = out @ [connect_line v]\<rparr>"
  using zero_breaks[OF assms] by (simp add: char_loop_breaks)

text \<open>The inner loop past the declaration line (\<open>j > i\<close>), after the text \<open>T\<close> was read.\<close>

lemma inner_loop_exhausts:
  assumes "i < length xs" "never_zero (T @ concat mid)"
  shows "inner_loop (xs @ mid) v i (length xs)
           \<lparr>bracket_count = depth T, found_opening = opened T, output_lines = out\<rparr> =
         (length xs + length mid,
           \<lparr>bracket_count = depth (T @ concat mid), found_opening = opened (T @ concat mid),
              output_lines = out @ mid\<rparr>)"
  using assms
proof (induction mid arbitrary: xs T out)
  case Nil
  then show ?case by (simp add: inner_loop_end)
next
  case (Cons m mid)
  let ?lines = "xs @ m # mid"
  let ?st = "\<lparr>bracket_count = depth T, found_opening = opened T, output_lines = out\<rparr>"
  have l: "length xs < length ?lines" and n: "?lines ! length xs = m" by simp_all
  from Cons.prems(2) have nz: "never_zero (T @ m @ concat mid)" by simp
  have c: "char_loop v (?lines ! length xs) ?st =
      \<lparr>bracket_count = depth (T @ m), found_opening = opened (T @ m), output_lines = out\<rparr>"
    unfolding n by (rule char_loop_line_reads[OF nz])
  from never_zero_not_zero[of "T @ m" "concat mid"] nz
  have z: "\<not> (found_opening (char_loop v (?lines ! length xs) ?st) \<and>
             bracket_count (char_loop v (?lines ! length xs) ?st) = 0)"
    unfolding c by (simp add: zero_after_def zero_from_def)
  have "inner_loop ?lines v i (length xs) ?st =
      inner_loop ((xs @ [m]) @ mid) v i (length (xs @ [m]))
        \<lparr>bracket_count = depth (T @ m), found_opening = opened (T @ m),
           output_lines = out @ [m]\<rparr>"
    unfolding inner_loop_step[OF l z] c using Cons.prems(1) by (simp add: n)
  also have "\<dots> = (length (xs @ [m]) + length mid,
      \<lparr>bracket_count = depth ((T @ m) @ concat mid), found_opening = opened ((T @ m) @ concat mid),
         output_lines = (out @ [m]) @ mid\<rparr>)"
    by (rule Cons.IH) (use Cons.prems nz in simp_all)
  finally show ?case by simp
qed

lemma inner_loop_stops:
  assumes "i < length xs" "never_zero (T @ concat mid @ p)"
    "zero_after (T @ concat mid @ p @ [CHR ''}''])"
  shows "inner_loop (xs @ mid @ (p @ CHR ''}'' # s) # post) v i (length xs)
           \<lparr>bracket_count = depth T, found_opening = opened T, output_lines = out\<rparr> =
         (length xs + length mid,
           \<lparr>bracket_count = 0, found_opening = True,
              output_lines = out @ mid @ [connect_line v]\<rparr>)"
  using assms
proof (induction mid arbitrary: xs T out)
  case Nil
  let ?lines = "xs @ (p @ CHR ''}'' # s) # post"
  let ?st = "\<lparr>bracket_count = depth T, found_opening = opened T, output_lines = out\<rparr>"
  have l: "length xs < length ?lines" and n: "?lines ! length xs = p @ CHR ''}'' # s" by simp_all
  from Nil.prems(3) have c: "char_loop v (?lines ! length xs) ?st =
      \<lparr>bracket_count = 0, found_opening = True, output_lines = out @ [connect_line v]\<rparr>"
    unfolding n by (simp add: char_loop_line_breaks)
  from inner_loop_stop[of "length xs" ?lines v ?st i] l show ?case
    unfolding c by simp
next
  case (Cons m mid)
  let ?lines = "xs @ (m # mid) @ (p @ CHR ''}'' # s) # post"
  let ?st = "\<lparr>bracket_count = depth T, found_opening = opened T, output_lines = out\<rparr>"
  have l: "length xs < length ?lines" and n: "?lines ! length xs = m" by simp_all
  from Cons.prems(2) have nz: "never_zero (T @ m @ (concat mid @ p))" by simp
  have c: "char_loop v (?lines ! length xs) ?st =
      \<lparr>bracket_count = depth (T @ m), found_opening = opened (T @ m), output_lines = out\<rparr>"
    unfolding n by (rule char_loop_line_reads[OF nz])
  from never_zero_not_zero[of "T @ m" "concat mid @ p"] nz
  have z: "\<not> (found_opening (char_loop v (?lines ! length xs) ?st) \<and>
             bracket_count (char_loop v (?lines ! length xs) ?st) = 0)"
    unfolding c by (simp add: zero_after_def zero_from_def)
  have "inner_loop ?lines v i (length xs) ?st =
      inner_loop ((xs @ [m]) @ mid @ (p @ CHR ''}'' # s) # post) v i (length (xs @ [m]))
        \<lparr>bracket_count = depth (T @ m), found_opening = opened (T @ m),
           output_lines = out @ [m]\<rparr>"
    unfolding inner_loop_step[OF l z] c using Cons.prems(1) by (simp add: n)
  also have "\<dots> = (length (xs @ [m]) + length mid,
      \<lparr>bracket_count = 0, found_opening = True,
         output_lines = (out @ [m]) @ mid @ [connect_line v]\<rparr>)"
    by (rule Cons.IH) (use Cons.prems nz in simp_all)
  finally show ?case by simp
qed


subsection \<open>The rewrite of a file, declaration by declaration\<close>

lemma rewrite_lines_Nil [simp]: "rewrite_lines [] = []"
  by (simp add: rewrite_lines_def outer_loop.simps[of "[]"])

lemma outer_loop_past_end: "length lines \<le> k \<Longrightarrow> outer_loop lines k acc = acc"
  by (simp add: outer_loop.simps[of lines k])

lemma outer_loop_drop: "outer_loop lines k acc = acc @ rewrite_lines (drop k lines)"
proof (cases "k \<le> length lines")
  case False
  then show ?thesis by (simp add: outer_loop_past_end)
next
  case True
  then have k: "length (take k lines) + 0 = k" by simp
  have "outer_loop (take k lines @ drop k lines) (length (take k lines) + 0) (acc @ []) =
      acc @ outer_loop (drop k lines) 0 []"
    unfolding outer_loop_shift by (rule outer_loop_out)
  then show ?thesis unfolding k by (simp add: rewrite_lines_def)
qed

lemma rewrite_lines_no_match:
  assumes "decl_match l = None"
  shows "rewrite_lines (l # ls) = l # rewrite_lines ls"
proof -
  have "rewrite_lines (l # ls) = outer_loop (l # ls) (0 + 1) ([] @ [l])"
    unfolding rewrite_lines_def using assms by (subst outer_loop.simps) simp
  then show ?thesis by (simp add: outer_loop_drop)
qed

lemma rewrite_lines_skip:
  "\<forall>l \<in> set pre. decl_match l = None \<Longrightarrow> rewrite_lines (pre @ rest) = pre @ rewrite_lines rest"
  by (induction pre) (simp_all add: rewrite_lines_no_match)

lemma rewrite_lines_decl:
  assumes "decl_match d = Some v"
    and "inner_loop (d # rest) v 0 0
           \<lparr>bracket_count = 0, found_opening = False, output_lines = [d]\<rparr> = (j, st)"
  shows "rewrite_lines (d # rest) = output_lines st @ rewrite_lines (drop j rest)"
proof -
  have "rewrite_lines (d # rest) = outer_loop (d # rest) (j + 1) (output_lines st)"
    unfolding rewrite_lines_def using assms by (subst outer_loop.simps) simp
  then show ?thesis by (simp add: outer_loop_drop)
qed

lemma rewrite_lines_same_line:
  assumes "decl_match d = Some v" "breaks_in 0 False d"
  shows "rewrite_lines (d # post) = d # connect_line v # rewrite_lines post"
proof -
  let ?st0 = "\<lparr>bracket_count = 0, found_opening = False, output_lines = [d]\<rparr>"
  from assms(2) have c: "char_loop v ((d # post) ! 0) ?st0 =
      \<lparr>bracket_count = 0, found_opening = True, output_lines = [d, connect_line v]\<rparr>"
    by (simp add: char_loop_breaks)
  have "inner_loop (d # post) v 0 0 ?st0 =
      (0, \<lparr>bracket_count = 0, found_opening = True, output_lines = [d, connect_line v]\<rparr>)"
    using inner_loop_stop[of 0 "d # post" v ?st0 0] unfolding c by simp
  from rewrite_lines_decl[OF assms(1) this] show ?thesis by simp
qed

lemma first_line_reads:
  assumes "never_zero (d @ r)"
  shows "inner_loop (d # rest) v 0 0
           \<lparr>bracket_count = 0, found_opening = False, output_lines = [d]\<rparr> =
         inner_loop ([d] @ rest) v 0 (length [d])
           \<lparr>bracket_count = depth d, found_opening = opened d, output_lines = [d]\<rparr>"
proof -
  let ?st0 = "\<lparr>bracket_count = 0, found_opening = False, output_lines = [d]\<rparr>"
  from assms have nz: "never_zero ([] @ d @ r)" by simp
  have c: "char_loop v ((d # rest) ! 0) ?st0 =
      \<lparr>bracket_count = depth d, found_opening = opened d, output_lines = [d]\<rparr>"
    using char_loop_line_reads[OF nz, of v "[d]"] by simp
  from never_zero_not_zero[OF assms]
  have z: "\<not> (found_opening (char_loop v ((d # rest) ! 0) ?st0) \<and>
             bracket_count (char_loop v ((d # rest) ! 0) ?st0) = 0)"
    unfolding c by (simp add: zero_after_def zero_from_def)
  have l: "0 < length (d # rest)" by simp
  show ?thesis unfolding inner_loop_step[OF l z] c by simp
qed

lemma rewrite_lines_block:
  assumes "decl_match d = Some v"
    and "never_zero (concat (d # blk) @ p)"
    and "zero_after (concat (d # blk) @ p @ [CHR ''}''])"
  shows "rewrite_lines (d # blk @ (p @ CHR ''}'' # s) # post) =
           d # blk @ connect_line v # rewrite_lines post"
proof -
  let ?rest = "blk @ (p @ CHR ''}'' # s) # post"
  from assms(2) have nz: "never_zero (d @ (concat blk @ p))" by simp
  have "inner_loop (d # ?rest) v 0 0
      \<lparr>bracket_count = 0, found_opening = False, output_lines = [d]\<rparr> =
      (length [d] + length blk,
       \<lparr>bracket_count = 0, found_opening = True, output_lines = [d] @ blk @ [connect_line v]\<rparr>)"
    unfolding first_line_reads[OF nz]
    by (rule inner_loop_stops) (use assms in simp_all)
  from rewrite_lines_decl[OF assms(1) this] show ?thesis by simp
qed

lemma rewrite_lines_unbalanced:
  assumes "decl_match d = Some v"
    and "never_zero (concat (d # rest))"
  shows "rewrite_lines (d # rest) = d # rest"
proof -
  from assms(2) have nz: "never_zero (d @ concat rest)" by simp
  have "inner_loop (d # rest) v 0 0
      \<lparr>bracket_count = 0, found_opening = False, output_lines = [d]\<rparr> =
      (length [d] + length rest,
       \<lparr>bracket_count = depth (d @ concat rest), found_opening = opened (d @ concat rest),
          output_lines = [d] @ rest\<rparr>)"
    unfolding first_line_reads[OF nz]
    by (rule inner_loop_exhausts) (use nz in simp_all)
  from rewrite_lines_decl[OF assms(1) this] show ?thesis by simp
qed


subsection \<open>What the inner loop appends, whatever the braces\<close>

lemma char_loop_appends:
  "\<exists>ins. output_lines (char_loop v cs st) = output_lines st @ ins \<and>
     (ins = [] \<or>
      ins = [connect_line v] \<and> found_opening (char_loop v cs st) \<and>
        bracket_count (char_loop v cs st) = 0)"
  by (cases "breaks_in (bracket_count st) (found_opening st) cs")
    (simp_all add: char_loop_breaks char_loop_reads)

lemma inner_loop_output:
  assumes "inner_loop lines v i j st = (j', st')" "i \<le> j" "j \<le> length lines"
  shows "j \<le> j' \<and> j' \<le> length lines \<and>
    (\<exists>ins. (ins = [] \<or> ins = [connect_line v] \<and> j' < length lines) \<and>
       output_lines st' =
         output_lines st @ take (j' - max j (Suc i)) (drop (max j (Suc i)) lines) @ ins)"
  using assms
proof (induction lines v i j st rule: inner_loop.induct)
  case (1 lines v i j st)
  let ?st1 = "char_loop v (lines ! j) st"
  let ?st2 = "if j > i then ?st1\<lparr>output_lines := output_lines ?st1 @ [lines ! j]\<rparr> else ?st1"
  obtain ins1 where ins1: "output_lines ?st1 = output_lines st @ ins1"
    "ins1 = [] \<or> ins1 = [connect_line v] \<and> found_opening ?st1 \<and> bracket_count ?st1 = 0"
    using char_loop_appends[of v "lines ! j" st] by blast
  show ?case
  proof (cases "j < length lines")
    case False
    with "1.prems" show ?thesis by (simp add: inner_loop_end)
  next
    case True
    show ?thesis
    proof (cases "found_opening ?st1 \<and> bracket_count ?st1 = 0")
      case z: True
      with True have "inner_loop lines v i j st = (j, ?st1)"
        by (simp add: inner_loop_stop)
      with "1.prems"(1) have "j' = j" "st' = ?st1"
        by auto
      with True ins1 show ?thesis by auto
    next
      case z: False
      with ins1 have o1: "output_lines ?st1 = output_lines st" by auto
      from "1.prems"(1) have r: "inner_loop lines v i (j + 1) ?st2 = (j', st')"
        unfolding inner_loop_step[OF True z] .
      from "1.IH"[OF True refl refl z r] "1.prems"(2) True
      obtain ins where ih: "j + 1 \<le> j'" "j' \<le> length lines"
        "ins = [] \<or> ins = [connect_line v] \<and> j' < length lines"
        "output_lines st' = output_lines ?st2 @
           take (j' - max (j + 1) (Suc i)) (drop (max (j + 1) (Suc i)) lines) @ ins"
        by auto
      show ?thesis
      proof (cases "j > i")
        case False
        with "1.prems"(2) have "j = i" by simp
        with ih o1 show ?thesis by auto
      next
        case gt: True
        then have m: "max (j + 1) (Suc i) = Suc j" "max j (Suc i) = j" by simp_all
        from ih(1) have d: "j' - j = Suc (j' - Suc j)" by simp
        have "take (j' - j) (drop j lines) = lines ! j # take (j' - Suc j) (drop (Suc j) lines)"
          unfolding d using True by (simp add: Cons_nth_drop_Suc[symmetric])
        with ih gt o1 show ?thesis unfolding m by auto
      qed
    qed
  qed
qed


lemma concat_readlines: "concat (readlines s) = s"
  by (induction s) (auto split: list.splits)

subsection \<open>Reading and writing\<close>

text \<open>
  Text without a carriage return is read as it is, and a newline written as a
  newline leaves the text as it is. The function returns when the path names a
  regular file that can be read and written and whose bytes decode; in every other
  case it raises, and no file is changed.
\<close>

lemma universal_newlines_id: "CR \<notin> set s \<Longrightarrow> universal_newlines s = s"
  by (induction s rule: universal_newlines.induct) auto

lemma writelines_NL: "writelines [NL] ls = concat ls"
proof -
  have "concat (map (\<lambda>c. if c = NL then [NL] else [c]) t) = t" for t :: string
    by (induction t) auto
  then show ?thesis by (simp add: writelines_def)
qed

lemma fix_eventbus_connections_returns:
  assumes "files w filename = Some (Regular f)" "readable f" "writable f" "content f = Some s"
  shows "fix_eventbus_connections filename w =
    (Inr (),
     w\<lparr>files := (files w)(filename \<mapsto> Regular (f\<lparr>content :=
          Some (writelines (linesep w) (rewrite_lines (readlines (universal_newlines s))))\<rparr>)),
        opens := opens w @ [(filename, ''r''), (filename, ''w'')]\<rparr>)"
  using assms
  by (simp add: fix_eventbus_connections_def open_r_def f_readlines_def open_w_def
      f_writelines_def Let_def)


subsection \<open>The pattern, declaratively\<close>

text \<open>
  \<open>decl_match\<close> finds exactly the lines the regular expression describes: spaces, a
  non-empty run of word characters (the identifier it returns), spaces, \<open>:=\<close>,
  spaces, \<open>spatial.\<close> or nothing, \<open>New\<close>, one of the two names and an opening
  parenthesis; what follows is free.
\<close>

lemma space_not_word: "is_space c \<Longrightarrow> \<not> is_word c"
  by (auto simp: is_space_def is_word_def Let_def)

lemma strip_prefix_Some: "strip_prefix p s = Some t \<longleftrightarrow> s = p @ t"
  by (auto simp: strip_prefix_def prefix_def)

lemma dropWhile_run:
  "list_all P xs \<Longrightarrow> ys = [] \<or> \<not> P (hd ys) \<Longrightarrow> dropWhile P (xs @ ys) = ys"
  by (induction xs) (auto simp: dropWhile_eq_self_iff)

lemma takeWhile_run:
  "list_all P xs \<Longrightarrow> ys = [] \<or> \<not> P (hd ys) \<Longrightarrow> takeWhile P (xs @ ys) = xs"
  by (induction xs) (auto simp: takeWhile_eq_Nil_iff)

lemma decl_match_complete:
  assumes l: "line = sp1 @ v @ sp2 @ '':='' @ sp3 @ q @ ''New'' @ n @ ''('' @ rest"
    and sp: "list_all is_space sp1" "list_all is_space sp2" "list_all is_space sp3"
    and v: "v \<noteq> []" "list_all is_word v"
    and q: "q = [] \<or> q = ''spatial.''"
    and n: "n = ''BasicRoom'' \<or> n = ''BasicRoomOrchestrator''"
  shows "decl_match line = Some v"
proof -
  let ?r4 = "q @ ''New'' @ n @ ''('' @ rest"
  let ?r3 = "sp3 @ ?r4"
  let ?r2 = "sp2 @ '':='' @ ?r3"
  let ?r1 = "v @ ?r2"
  have nc: "\<not> is_space CHR '':''" "\<not> is_word CHR '':''" "\<not> is_space CHR ''s''"
    "\<not> is_space CHR ''N''"
    by (simp_all add: is_space_def is_word_def)
  from v have "\<not> is_space (hd ?r1)"
    by (cases v) (auto dest: space_not_word)
  with sp(1) have s1: "dropWhile is_space line = ?r1"
    unfolding l by (intro dropWhile_run) simp_all
  from sp(2) nc(2) have "\<not> is_word (hd ?r2)"
    by (cases sp2) (auto dest: space_not_word)
  with v(2) have var: "takeWhile is_word ?r1 = v" and d: "dropWhile is_word ?r1 = ?r2"
    by (simp_all add: takeWhile_run dropWhile_run)
  from nc(1) have "\<not> is_space (hd ('':='' @ ?r3))" by simp
  with sp(2) have s2: "dropWhile is_space ?r2 = '':='' @ ?r3"
    by (intro dropWhile_run) simp_all
  from q nc(3,4) have "\<not> is_space (hd ?r4)" by auto
  with sp(3) have s4: "dropWhile is_space ?r3 = ?r4"
    by (intro dropWhile_run) simp_all
  from q have s5: "(case strip_prefix ''spatial.'' ?r4 of Some t \<Rightarrow> t | None \<Rightarrow> ?r4) =
      ''New'' @ n @ ''('' @ rest"
    by (auto simp: strip_prefix_def)
  from n have s6: "prefix ''BasicRoom('' (n @ ''('' @ rest) \<or>
      prefix ''BasicRoomOrchestrator('' (n @ ''('' @ rest)"
    by auto
  have s3: "strip_prefix '':='' ('':='' @ ?r3) = Some ?r3"
    "strip_prefix ''New'' (''New'' @ n @ ''('' @ rest) = Some (n @ ''('' @ rest)"
    by (simp_all add: strip_prefix_def)
  show ?thesis
    unfolding decl_match_def s1 var d s2 Let_def
    using v(1) s6 by (simp only: s3 s4 s5 option.case if_False if_True)
qed

lemma decl_match_sound:
  assumes "decl_match line = Some v"
  shows "\<exists>sp1 sp2 sp3 q n rest.
      line = sp1 @ v @ sp2 @ '':='' @ sp3 @ q @ ''New'' @ n @ ''('' @ rest \<and>
      list_all is_space sp1 \<and> list_all is_space sp2 \<and> list_all is_space sp3 \<and>
      v \<noteq> [] \<and> list_all is_word v \<and> (q = [] \<or> q = ''spatial.'') \<and>
      (n = ''BasicRoom'' \<or> n = ''BasicRoomOrchestrator'')"
proof -
  define s1 where "s1 = dropWhile is_space line"
  define w where "w = dropWhile is_word s1"
  define s2 where "s2 = dropWhile is_space w"
  define tail where "tail = (\<lambda>s3.
      let s4 = dropWhile is_space s3;
          s5 = (case strip_prefix ''spatial.'' s4 of Some t \<Rightarrow> t | None \<Rightarrow> s4)
      in case strip_prefix ''New'' s5 of
           None \<Rightarrow> None
         | Some s6 \<Rightarrow>
             if prefix ''BasicRoom('' s6 \<or> prefix ''BasicRoomOrchestrator('' s6
             then Some (takeWhile is_word s1) else None)"
  have e: "decl_match line =
      (if takeWhile is_word s1 = [] then None
       else case strip_prefix '':='' s2 of None \<Rightarrow> None | Some s3 \<Rightarrow> tail s3)"
    unfolding decl_match_def s1_def w_def s2_def tail_def Let_def ..
  from assms e have ne: "takeWhile is_word s1 \<noteq> []"
    by (cases "takeWhile is_word s1 = []") simp_all
  with assms e obtain s3 where s3: "strip_prefix '':='' s2 = Some s3" and t: "tail s3 = Some v"
    by (cases "strip_prefix '':='' s2") simp_all
  define s4 where "s4 = dropWhile is_space s3"
  define s5 where "s5 = (case strip_prefix ''spatial.'' s4 of Some t \<Rightarrow> t | None \<Rightarrow> s4)"
  have t': "tail s3 = (case strip_prefix ''New'' s5 of
           None \<Rightarrow> None
         | Some s6 \<Rightarrow>
             if prefix ''BasicRoom('' s6 \<or> prefix ''BasicRoomOrchestrator('' s6
             then Some (takeWhile is_word s1) else None)"
    unfolding tail_def s4_def s5_def Let_def ..
  from t t' obtain s6 where s6: "strip_prefix ''New'' s5 = Some s6"
    and c: "(if prefix ''BasicRoom('' s6 \<or> prefix ''BasicRoomOrchestrator('' s6
             then Some (takeWhile is_word s1) else None) = Some v"
    by (cases "strip_prefix ''New'' s5") simp_all
  from c have p: "prefix ''BasicRoom('' s6 \<or> prefix ''BasicRoomOrchestrator('' s6"
    and v: "v = takeWhile is_word s1"
    by (simp_all split: if_splits)
  have "\<exists>q. (q = [] \<or> q = ''spatial.'') \<and> s4 = q @ s5"
  proof (cases "strip_prefix ''spatial.'' s4")
    case None
    then have "s4 = [] @ s5" by (simp add: s5_def)
    then show ?thesis by blast
  next
    case (Some t)
    then have "s5 = t" by (simp add: s5_def)
    moreover from Some have "s4 = ''spatial.'' @ t" by (simp only: strip_prefix_Some)
    ultimately have "s4 = ''spatial.'' @ s5" by simp
    then show ?thesis by blast
  qed
  then obtain q where q: "q = [] \<or> q = ''spatial.''" and s4: "s4 = q @ s5" by blast
  from s6 have s5: "s5 = ''New'' @ s6" by (simp only: strip_prefix_Some)
  from s3 have s2: "s2 = '':='' @ s3" by (simp only: strip_prefix_Some)
  from p obtain n rest where n: "n = ''BasicRoom'' \<or> n = ''BasicRoomOrchestrator''"
    and r: "s6 = n @ ''('' @ rest"
  proof
    assume "prefix ''BasicRoom('' s6"
    then obtain rest where "s6 = ''BasicRoom'' @ ''('' @ rest" unfolding prefix_def by auto
    with that show thesis by blast
  next
    assume "prefix ''BasicRoomOrchestrator('' s6"
    then obtain rest where "s6 = ''BasicRoomOrchestrator'' @ ''('' @ rest"
      unfolding prefix_def by auto
    with that show thesis by blast
  qed
  have "line = takeWhile is_space line @ s1"
    by (simp add: s1_def)
  also have "s1 = v @ w" by (simp add: v w_def)
  also have "w = takeWhile is_space w @ s2" by (simp add: s2_def)
  also note s2
  also have "s3 = takeWhile is_space s3 @ s4" by (simp add: s4_def)
  also note s4
  also note s5
  also note r
  finally have "line = takeWhile is_space line @ v @ takeWhile is_space w @ '':='' @
      takeWhile is_space s3 @ q @ ''New'' @ n @ ''('' @ rest" .
  moreover have "list_all is_space (takeWhile is_space line)"
    "list_all is_space (takeWhile is_space w)" "list_all is_space (takeWhile is_space s3)"
    "list_all is_word v"
    by (auto simp: list_all_iff v dest: set_takeWhileD)
  moreover from ne v have "v \<noteq> []" by simp
  ultimately show ?thesis using q n by blast
qed

lemma decl_match_iff:
  "decl_match line = Some v \<longleftrightarrow>
    (\<exists>sp1 sp2 sp3 q n rest.
      line = sp1 @ v @ sp2 @ '':='' @ sp3 @ q @ ''New'' @ n @ ''('' @ rest \<and>
      list_all is_space sp1 \<and> list_all is_space sp2 \<and> list_all is_space sp3 \<and>
      v \<noteq> [] \<and> list_all is_word v \<and> (q = [] \<or> q = ''spatial.'') \<and>
      (n = ''BasicRoom'' \<or> n = ''BasicRoomOrchestrator''))"
proof
  assume "decl_match line = Some v"
  then show "\<exists>sp1 sp2 sp3 q n rest.
      line = sp1 @ v @ sp2 @ '':='' @ sp3 @ q @ ''New'' @ n @ ''('' @ rest \<and>
      list_all is_space sp1 \<and> list_all is_space sp2 \<and> list_all is_space sp3 \<and>
      v \<noteq> [] \<and> list_all is_word v \<and> (q = [] \<or> q = ''spatial.'') \<and>
      (n = ''BasicRoom'' \<or> n = ''BasicRoomOrchestrator'')"
    by (rule decl_match_sound)
next
  assume "\<exists>sp1 sp2 sp3 q n rest.
      line = sp1 @ v @ sp2 @ '':='' @ sp3 @ q @ ''New'' @ n @ ''('' @ rest \<and>
      list_all is_space sp1 \<and> list_all is_space sp2 \<and> list_all is_space sp3 \<and>
      v \<noteq> [] \<and> list_all is_word v \<and> (q = [] \<or> q = ''spatial.'') \<and>
      (n = ''BasicRoom'' \<or> n = ''BasicRoomOrchestrator'')"
  then show "decl_match line = Some v"
    by (elim exE conjE) (rule decl_match_complete)
qed

section \<open>The claims\<close>

text \<open>Facts for evaluating the model on a given file.\<close>

lemmas pattern_defs = decl_match_def strip_prefix_def is_space_def is_word_def NL_def TAB_def Let_def

lemmas scan_defs = rewrite_lines_def outer_loop.simps inner_loop.simps connect_line_def

lemmas brace_defs = never_zero_def zero_after_def zero_from_def breaks_in_def

text \<open>
  Claim C1 says that a declaration \<open>r := NewBasicRoom(\<close> followed by a block ending in a
  lone \<open>}\<close> yields that block unchanged plus an appended \<open>r.ConnectToEventBus(eventBus)\<close>
  line. On that very file the loop leaves the inner scan before it appends the
  closing line: the output holds the synthesized line where the line \<open>}\<close> was.
\<close>

theorem block_closing_line_lost:
  "rewrite_lines
     [''r := NewBasicRoom('' @ [NL], ''Config{'' @ [NL], ''Width: 10,'' @ [NL], ''}'' @ [NL]] =
     [''r := NewBasicRoom('' @ [NL], ''Config{'' @ [NL], ''Width: 10,'' @ [NL],
      connect_line ''r'']"
  by (simp add: scan_defs pattern_defs)

text \<open>
  Claim C2 says that every line of the input appears in the output, in order. The
  closing line of a block that ends after the declaration line is not copied: here
  the line \<open>})\<close> of the input is no line of the output, and the input is no
  subsequence of the output.
\<close>

theorem input_line_missing_from_output:
  "rewrite_lines
     [''room := spatial.NewBasicRoom(spatial.BasicRoomConfig{'' @ [NL],
      TAB # ''Width: 10,'' @ [NL], ''})'' @ [NL]] =
     [''room := spatial.NewBasicRoom(spatial.BasicRoomConfig{'' @ [NL],
      TAB # ''Width: 10,'' @ [NL], connect_line ''room''] \<and>
   \<not> subseq
     [''room := spatial.NewBasicRoom(spatial.BasicRoomConfig{'' @ [NL],
      TAB # ''Width: 10,'' @ [NL], ''})'' @ [NL]]
     (rewrite_lines
       [''room := spatial.NewBasicRoom(spatial.BasicRoomConfig{'' @ [NL],
        TAB # ''Width: 10,'' @ [NL], ''})'' @ [NL]])"
  by (simp add: scan_defs pattern_defs)

text \<open>
  The same early \<open>break\<close> has a second way to lose a line. A declaration without
  braces, followed by the closing brace of the function around it, leaves the count
  at \<open>-1\<close>; the opening brace of the next function brings it to zero, the test after
  the character loop ends the scan, and that line is neither copied nor replaced.
\<close>

lemma line_lost_without_insertion:
  "rewrite_lines
     [''func a() {'' @ [NL], ''r := NewBasicRoom(x)'' @ [NL], ''}'' @ [NL],
      ''func b() {'' @ [NL], ''}'' @ [NL]] =
     [''func a() {'' @ [NL], ''r := NewBasicRoom(x)'' @ [NL], ''}'' @ [NL], ''}'' @ [NL]]"
  by (simp add: scan_defs pattern_defs)

text \<open>
  Claim C3 says that a file with no matching line is written back with exactly the
  content it had. The file is read with universal newlines and written with the
  line separator of the platform: a file whose lines end in carriage return and
  newline, with no matching line, comes back with newlines alone where the
  separator is the newline.
\<close>

theorem crlf_file_rewritten:
  "map decl_match (readlines (universal_newlines
       (''package main'' @ [CR, NL] @ ''func f() {}'' @ [CR, NL]))) = [None, None] \<and>
   fix_eventbus_connections ''a.go''
     \<lparr>files = [''a.go'' \<mapsto> Regular \<lparr>readable = True, writable = True,
        content = Some (''package main'' @ [CR, NL] @ ''func f() {}'' @ [CR, NL])\<rparr>],
      linesep = [NL], opens = [], stdout = []\<rparr> =
     (Inr (),
      \<lparr>files = [''a.go'' \<mapsto> Regular \<lparr>readable = True, writable = True,
         content = Some (''package main'' @ [NL] @ ''func f() {}'' @ [NL])\<rparr>],
       linesep = [NL], opens = [(''a.go'', ''r''), (''a.go'', ''w'')], stdout = []\<rparr>) \<and>
   ''package main'' @ [NL] @ ''func f() {}'' @ [NL] \<noteq>
     ''package main'' @ [CR, NL] @ ''func f() {}'' @ [CR, NL]"
  by (simp add: fix_eventbus_connections_def open_r_def f_readlines_def open_w_def
      f_writelines_def writelines_def scan_defs pattern_defs CR_def)

text \<open>
  Claim C3, amended: for a file that is read and written without an exception and
  in which no line matches the declaration pattern, the loops return the lines as
  they were read, and the content written back is the text that was read (the
  content with every line ending as one newline), each newline written as the line
  separator of the platform. When the content has no carriage return and the
  separator is the newline, the file has exactly the content it had; the world
  changes by the two calls of \<open>open\<close> only.
\<close>

theorem no_declaration_lines_unchanged:
  assumes "files w filename = Some (Regular f)" "readable f" "writable f" "content f = Some s"
    and "\<forall>l \<in> set (readlines (universal_newlines s)). decl_match l = None"
  shows "rewrite_lines (readlines (universal_newlines s)) = readlines (universal_newlines s) \<and>
    fix_eventbus_connections filename w =
      (Inr (),
       w\<lparr>files := (files w)(filename \<mapsto>
            Regular (f\<lparr>content := Some (writelines (linesep w) [universal_newlines s])\<rparr>)),
          opens := opens w @ [(filename, ''r''), (filename, ''w'')]\<rparr>) \<and>
    (CR \<notin> set s \<and> linesep w = [NL] \<longrightarrow>
       fix_eventbus_connections filename w =
         (Inr (), w\<lparr>opens := opens w @ [(filename, ''r''), (filename, ''w'')]\<rparr>))"
proof -
  let ?t = "universal_newlines s"
  from rewrite_lines_skip[OF assms(5), of "[]"]
  have r: "rewrite_lines (readlines ?t) = readlines ?t" by simp
  have c: "writelines sep (readlines ?t) = writelines sep [?t]" for sep
    by (simp add: writelines_def concat_readlines)
  have e: "fix_eventbus_connections filename w =
      (Inr (),
       w\<lparr>files := (files w)(filename \<mapsto>
            Regular (f\<lparr>content := Some (writelines (linesep w) [?t])\<rparr>)),
          opens := opens w @ [(filename, ''r''), (filename, ''w'')]\<rparr>)"
    unfolding fix_eventbus_connections_returns[OF assms(1-4)] r c ..
  have "fix_eventbus_connections filename w =
      (Inr (), w\<lparr>opens := opens w @ [(filename, ''r''), (filename, ''w'')]\<rparr>)"
    if "CR \<notin> set s \<and> linesep w = [NL]"
  proof -
    from that have "writelines (linesep w) [?t] = s"
      by (simp add: writelines_NL universal_newlines_id)
    moreover from assms(4) have "f\<lparr>content := Some s\<rparr> = f" by simp
    moreover from assms(1) have "(files w)(filename \<mapsto> Regular f) = files w"
      by (rule map_upd_triv)
    ultimately show ?thesis unfolding e by simp
  qed
  with r e show ?thesis by blast
qed

theorem no_declaration_lines_unchanged_witness:
  "fix_eventbus_connections ''a.go''
     \<lparr>files = [''a.go'' \<mapsto> Regular \<lparr>readable = True, writable = True,
        content = Some (''package main'' @ [NL] @ ''func f() {'' @ [NL] @ ''}'' @ [NL])\<rparr>],
      linesep = [NL], opens = [], stdout = []\<rparr> =
     (Inr (),
      \<lparr>files = [''a.go'' \<mapsto> Regular \<lparr>readable = True, writable = True,
         content = Some (''package main'' @ [NL] @ ''func f() {'' @ [NL] @ ''}'' @ [NL])\<rparr>],
       linesep = [NL], opens = [(''a.go'', ''r''), (''a.go'', ''w'')], stdout = []\<rparr>) \<and>
   rewrite_lines [''package main'' @ [NL], ''func f() {'' @ [NL], ''}'' @ [NL]] =
     [''package main'' @ [NL], ''func f() {'' @ [NL], ''}'' @ [NL]]"
proof -
  let ?s = "''package main'' @ [NL] @ ''func f() {'' @ [NL] @ ''}'' @ [NL]"
  let ?f = "\<lparr>readable = True, writable = True, content = Some ?s\<rparr>"
  let ?w = "\<lparr>files = [''a.go'' \<mapsto> Regular ?f], linesep = [NL], opens = [], stdout = []\<rparr>"
  have u: "universal_newlines ?s = ?s"
    by (rule universal_newlines_id) (simp add: CR_def NL_def)
  have l: "readlines ?s = [''package main'' @ [NL], ''func f() {'' @ [NL], ''}'' @ [NL]]"
    by (simp add: NL_def)
  have n: "\<forall>l \<in> set (readlines (universal_newlines ?s)). decl_match l = None"
    unfolding u l by (simp add: pattern_defs)
  have c: "CR \<notin> set ?s \<and> linesep ?w = [NL]"
    by (simp add: CR_def NL_def)
  have p: "files ?w ''a.go'' = Some (Regular ?f)" "readable ?f" "writable ?f"
    "content ?f = Some ?s"
    by simp_all
  note t = no_declaration_lines_unchanged[OF p n]
  from t have a: "rewrite_lines (readlines (universal_newlines ?s)) =
      readlines (universal_newlines ?s)"
    by blast
  from t c have b: "fix_eventbus_connections ''a.go'' ?w =
      (Inr (), ?w\<lparr>opens := opens ?w @ [(''a.go'', ''r''), (''a.go'', ''w'')]\<rparr>)"
    by blast
  from a b show ?thesis unfolding u l by simp
qed

text \<open>
  Claim C4: the outer loop stands at a matching declaration \<open>d\<close> (the lines \<open>xs\<close> are
  behind it, \<open>out\<close> is the output so far) and, from the start of \<open>d\<close> to the end of
  the file, the count never is at zero after an opening brace, be it that no opening
  brace comes at all. Then the scan runs to the end of the file: the output is the
  output so far with \<open>d\<close> and every remaining line as it is, no line is synthesized,
  and the function returns (the model is total, nothing here raises). When no line
  before \<open>d\<close> matches, the whole file is returned unchanged.
\<close>

theorem unbalanced_scan_consumes_rest:
  assumes "decl_match d = Some v"
    and "never_zero (concat (d # rest))"
  shows "outer_loop (xs @ d # rest) (length xs) out = out @ d # rest \<and>
    ((\<forall>l \<in> set xs. decl_match l = None) \<longrightarrow> rewrite_lines (xs @ d # rest) = xs @ d # rest)"
proof -
  have r: "rewrite_lines (d # rest) = d # rest"
    using assms by (rule rewrite_lines_unbalanced)
  then have "outer_loop (xs @ d # rest) (length xs) out = out @ d # rest"
    by (simp add: outer_loop_drop)
  moreover have "rewrite_lines (xs @ d # rest) = xs @ d # rest"
    if "\<forall>l \<in> set xs. decl_match l = None"
    using rewrite_lines_skip[OF that, of "d # rest"] r by simp
  ultimately show ?thesis by blast
qed

theorem unbalanced_scan_consumes_rest_witness:
  "never_zero (concat [''r := NewBasicRoom(A{'' @ [NL], ''s := NewBasicRoom(B{})'' @ [NL]]) \<and>
   outer_loop [''go()'' @ [NL], ''r := NewBasicRoom(A{'' @ [NL], ''s := NewBasicRoom(B{})'' @ [NL]]
     1 [''go()'' @ [NL]] =
     [''go()'' @ [NL], ''r := NewBasicRoom(A{'' @ [NL], ''s := NewBasicRoom(B{})'' @ [NL]] \<and>
   rewrite_lines [''go()'' @ [NL], ''r := NewBasicRoom(A{'' @ [NL], ''s := NewBasicRoom(B{})'' @ [NL]] =
     [''go()'' @ [NL], ''r := NewBasicRoom(A{'' @ [NL], ''s := NewBasicRoom(B{})'' @ [NL]]"
proof -
  have m: "decl_match (''r := NewBasicRoom(A{'' @ [NL]) = Some ''r''"
    by (simp add: pattern_defs)
  have n: "never_zero (concat [''r := NewBasicRoom(A{'' @ [NL], ''s := NewBasicRoom(B{})'' @ [NL]])"
    by (simp add: brace_defs NL_def)
  have p: "\<forall>l \<in> set [''go()'' @ [NL]]. decl_match l = None"
    by (simp add: pattern_defs)
  from unbalanced_scan_consumes_rest[OF m n, of "[''go()'' @ [NL]]" "[''go()'' @ [NL]]"] n p
  show ?thesis by simp
qed

text \<open>
  Claim C5: the rewrite is not idempotent. A file of one declaration whose braces
  close on the declaration line gets one synthesized line; rewriting that output
  inserts the same line a second time.
\<close>

theorem rewrite_not_idempotent:
  "rewrite_lines [''r := NewBasicRoom(Config{})'' @ [NL]] =
     [''r := NewBasicRoom(Config{})'' @ [NL], connect_line ''r''] \<and>
   rewrite_lines (rewrite_lines [''r := NewBasicRoom(Config{})'' @ [NL]]) =
     [''r := NewBasicRoom(Config{})'' @ [NL], connect_line ''r'', connect_line ''r''] \<and>
   rewrite_lines (rewrite_lines [''r := NewBasicRoom(Config{})'' @ [NL]]) \<noteq>
     rewrite_lines [''r := NewBasicRoom(Config{})'' @ [NL]]"
  by (simp add: scan_defs pattern_defs)

text \<open>
  Claim C6: the scan has no lexical awareness. The character loop gives the same
  result on a line as on the braces of that line alone, so quotes and comment
  markers change nothing; when it reads a line to its end (no line is synthesized)
  the count has grown by the number of all opening braces of the line less the
  number of all its closing braces; when it breaks, the count is zero after an
  opening brace. So a closing brace inside a string literal ends the scan of a
  block (first file), and an opening brace inside a comment keeps the scan from
  ending where the block ends (second file).
\<close>

theorem scan_counts_every_brace:
  "char_loop v line st = char_loop v (filter (\<lambda>c. c = CHR ''{'' \<or> c = CHR ''}'') line) st \<and>
   (output_lines (char_loop v line st) = output_lines st \<longrightarrow>
      bracket_count (char_loop v line st) =
        bracket_count st + int (count_list line CHR ''{'') - int (count_list line CHR ''}'') \<and>
      found_opening (char_loop v line st) = (found_opening st \<or> CHR ''{'' \<in> set line)) \<and>
   (output_lines (char_loop v line st) \<noteq> output_lines st \<longrightarrow>
      bracket_count (char_loop v line st) = 0 \<and> found_opening (char_loop v line st) \<and>
      output_lines (char_loop v line st) = output_lines st @ [connect_line v]) \<and>
   rewrite_lines
     [''r := NewBasicRoom(A{'' @ [NL], ''Name: '' @ [CHR 0x22] @ ''}'' @ [CHR 0x22] @ '','' @ [NL],
      ''})'' @ [NL]] =
     [''r := NewBasicRoom(A{'' @ [NL], connect_line ''r'', ''})'' @ [NL]] \<and>
   rewrite_lines
     [''r := NewBasicRoom(A{ // {'' @ [NL], ''})'' @ [NL], ''run(r)'' @ [NL]] =
     [''r := NewBasicRoom(A{ // {'' @ [NL], ''})'' @ [NL], ''run(r)'' @ [NL]]"
proof -
  have a: "char_loop v line st =
      char_loop v (filter (\<lambda>c. c = CHR ''{'' \<or> c = CHR ''}'') line) st"
    by (induction line arbitrary: st) (simp_all add: Let_def)
  have b: "bracket_count (char_loop v line st) =
        bracket_count st + int (count_list line CHR ''{'') - int (count_list line CHR ''}'') \<and>
      found_opening (char_loop v line st) = (found_opening st \<or> CHR ''{'' \<in> set line)"
    if "output_lines (char_loop v line st) = output_lines st"
  proof (cases "breaks_in (bracket_count st) (found_opening st) line")
    case True
    with that show ?thesis by (simp add: char_loop_breaks)
  next
    case False
    then show ?thesis by (simp add: char_loop_reads depth_def opened_def)
  qed
  have c: "bracket_count (char_loop v line st) = 0 \<and> found_opening (char_loop v line st) \<and>
      output_lines (char_loop v line st) = output_lines st @ [connect_line v]"
    if "output_lines (char_loop v line st) \<noteq> output_lines st"
  proof (cases "breaks_in (bracket_count st) (found_opening st) line")
    case True
    then show ?thesis by (simp add: char_loop_breaks)
  next
    case False
    with that show ?thesis by (simp add: char_loop_reads)
  qed
  have d: "rewrite_lines
     [''r := NewBasicRoom(A{'' @ [NL], ''Name: '' @ [CHR 0x22] @ ''}'' @ [CHR 0x22] @ '','' @ [NL],
      ''})'' @ [NL]] =
     [''r := NewBasicRoom(A{'' @ [NL], connect_line ''r'', ''})'' @ [NL]]"
    by (simp add: scan_defs pattern_defs)
  have e: "rewrite_lines
     [''r := NewBasicRoom(A{ // {'' @ [NL], ''})'' @ [NL], ''run(r)'' @ [NL]] =
     [''r := NewBasicRoom(A{ // {'' @ [NL], ''})'' @ [NL], ''run(r)'' @ [NL]]"
    by (simp add: scan_defs pattern_defs)
  from a b c d e show ?thesis by blast
qed

theorem scan_counts_every_brace_witness:
  "char_loop ''r'' (''a{ // {'' @ [CHR 0x22] @ ''}'' @ [CHR 0x22])
     \<lparr>bracket_count = 0, found_opening = False, output_lines = []\<rparr> =
     \<lparr>bracket_count = 1, found_opening = True, output_lines = []\<rparr> \<and>
   char_loop ''r'' ''{{}''
     \<lparr>bracket_count = 0, found_opening = False, output_lines = []\<rparr> =
     \<lparr>bracket_count = 1, found_opening = True, output_lines = []\<rparr> \<and>
   bracket_count (char_loop ''r'' (''a{ // {'' @ [CHR 0x22] @ ''}'' @ [CHR 0x22])
     \<lparr>bracket_count = 0, found_opening = False, output_lines = []\<rparr>) =
     0 + int (count_list (''a{ // {'' @ [CHR 0x22] @ ''}'' @ [CHR 0x22]) CHR ''{'') -
       int (count_list (''a{ // {'' @ [CHR 0x22] @ ''}'' @ [CHR 0x22]) CHR ''}'')"
proof -
  let ?st = "\<lparr>bracket_count = 0, found_opening = False, output_lines = []\<rparr>"
  let ?line = "''a{ // {'' @ [CHR 0x22] @ ''}'' @ [CHR 0x22]"
  have o: "output_lines (char_loop ''r'' ?line ?st) = output_lines ?st" by simp
  have f: "filter (\<lambda>c. c = CHR ''{'' \<or> c = CHR ''}'') ?line = ''{{}''" by simp
  have v: "char_loop ''r'' ''{{}'' ?st =
      \<lparr>bracket_count = 1, found_opening = True, output_lines = []\<rparr>" by simp
  from scan_counts_every_brace[of "''r''" ?line ?st] o f v show ?thesis by simp
qed




text \<open>
  Claim C8: the outer loop stands at a matching declaration \<open>d\<close>; the lines \<open>blk\<close>
  follow, then a line \<open>p } s\<close> whose brace is the first point at which the count is at
  zero after an opening brace. That line is left out of the output, with all its
  other characters \<open>p\<close> and \<open>s\<close>, and the synthesized line stands in its place; the
  lines \<open>post\<close> behind it are rewritten on their own. In a file with no other matching
  line (outside \<open>blk\<close>) the output has as many lines as the input.
\<close>

theorem closing_line_replaced:
  assumes "decl_match d = Some v"
    and "never_zero (concat (d # blk) @ p)"
    and "zero_after (concat (d # blk) @ p @ [CHR ''}''])"
  shows "outer_loop (xs @ d # blk @ (p @ CHR ''}'' # s) # post) (length xs) out =
      out @ d # blk @ connect_line v # rewrite_lines post \<and>
    ((\<forall>l \<in> set xs \<union> set post. decl_match l = None) \<longrightarrow>
      rewrite_lines (xs @ d # blk @ (p @ CHR ''}'' # s) # post) =
        xs @ d # blk @ connect_line v # post \<and>
      length (rewrite_lines (xs @ d # blk @ (p @ CHR ''}'' # s) # post)) =
        length (xs @ d # blk @ (p @ CHR ''}'' # s) # post))"
proof -
  let ?seg = "d # blk @ (p @ CHR ''}'' # s) # post"
  have r: "rewrite_lines ?seg = d # blk @ connect_line v # rewrite_lines post"
    using assms by (rule rewrite_lines_block)
  then have "outer_loop (xs @ ?seg) (length xs) out =
      out @ d # blk @ connect_line v # rewrite_lines post"
    by (simp add: outer_loop_drop)
  moreover have "rewrite_lines (xs @ ?seg) = xs @ d # blk @ connect_line v # post"
    if "\<forall>l \<in> set xs \<union> set post. decl_match l = None"
  proof -
    from that have a: "\<forall>l \<in> set xs. decl_match l = None"
      and b: "\<forall>l \<in> set post. decl_match l = None" by auto
    from rewrite_lines_skip[OF b, of "[]"] have "rewrite_lines post = post" by simp
    with rewrite_lines_skip[OF a, of ?seg] r show ?thesis by simp
  qed
  ultimately show ?thesis by auto
qed

theorem closing_line_replaced_witness:
  "outer_loop
     [''go()'' @ [NL], ''r := NewBasicRoom(A{'' @ [NL], ''W: 1,'' @ [NL], ''}) // end'' @ [NL],
      ''run(r)'' @ [NL]]
     1 [''go()'' @ [NL]] =
     [''go()'' @ [NL], ''r := NewBasicRoom(A{'' @ [NL], ''W: 1,'' @ [NL], connect_line ''r'',
      ''run(r)'' @ [NL]] \<and>
   rewrite_lines
     [''go()'' @ [NL], ''r := NewBasicRoom(A{'' @ [NL], ''W: 1,'' @ [NL], ''}) // end'' @ [NL],
      ''run(r)'' @ [NL]] =
     [''go()'' @ [NL], ''r := NewBasicRoom(A{'' @ [NL], ''W: 1,'' @ [NL], connect_line ''r'',
      ''run(r)'' @ [NL]]"
proof -
  have m: "decl_match (''r := NewBasicRoom(A{'' @ [NL]) = Some ''r''"
    by (simp add: pattern_defs)
  have n: "never_zero (concat ((''r := NewBasicRoom(A{'' @ [NL]) # [''W: 1,'' @ [NL]]) @ [])"
    by (simp add: brace_defs NL_def)
  have z: "zero_after (concat ((''r := NewBasicRoom(A{'' @ [NL]) # [''W: 1,'' @ [NL]]) @ [] @ [CHR ''}''])"
    by (simp add: brace_defs NL_def)
  have p: "\<forall>l \<in> set [''go()'' @ [NL]] \<union> set [''run(r)'' @ [NL]]. decl_match l = None"
    by (simp add: pattern_defs)
  have q: "rewrite_lines [''run(r)'' @ [NL]] = [''run(r)'' @ [NL]]"
    by (simp add: scan_defs pattern_defs)
  from closing_line_replaced[OF m n z, of "[''go()'' @ [NL]]" "'') // end'' @ [NL]"
      "[''run(r)'' @ [NL]]" "[''go()'' @ [NL]]"] p q
  show ?thesis by simp
qed

text \<open>
  Claim C9: the outer loop stands at a matching declaration \<open>d\<close>, and on that line a
  closing brace brings the count to zero after an opening brace
  (\<open>breaks_in 0 False d\<close>). Then the line \<open>d\<close> is kept and exactly one line, a tab, the
  identifier, \<open>.ConnectToEventBus(eventBus)\<close> and a newline, is inserted right after
  it; the lines behind are rewritten on their own. In a file with no other matching
  line every input line is kept and that one line is the only addition.
\<close>

theorem same_line_block_inserts_after:
  assumes "decl_match d = Some v"
    and "breaks_in 0 False d"
  shows "outer_loop (xs @ d # post) (length xs) out =
      out @ d # (CHR 0x09 # v @ ''.ConnectToEventBus(eventBus)'' @ [CHR 0x0A]) # rewrite_lines post \<and>
    ((\<forall>l \<in> set xs \<union> set post. decl_match l = None) \<longrightarrow>
      rewrite_lines (xs @ d # post) =
        xs @ d # (CHR 0x09 # v @ ''.ConnectToEventBus(eventBus)'' @ [CHR 0x0A]) # post)"
proof -
  have c: "connect_line v = CHR 0x09 # v @ ''.ConnectToEventBus(eventBus)'' @ [CHR 0x0A]"
    by (simp add: connect_line_def TAB_def NL_def)
  have r: "rewrite_lines (d # post) = d # connect_line v # rewrite_lines post"
    using assms by (rule rewrite_lines_same_line)
  then have "outer_loop (xs @ d # post) (length xs) out =
      out @ d # connect_line v # rewrite_lines post"
    by (simp add: outer_loop_drop)
  moreover have "rewrite_lines (xs @ d # post) = xs @ d # connect_line v # post"
    if "\<forall>l \<in> set xs \<union> set post. decl_match l = None"
  proof -
    from that have a: "\<forall>l \<in> set xs. decl_match l = None"
      and b: "\<forall>l \<in> set post. decl_match l = None" by auto
    from rewrite_lines_skip[OF b, of "[]"] have "rewrite_lines post = post" by simp
    with rewrite_lines_skip[OF a, of "d # post"] r show ?thesis by simp
  qed
  ultimately show ?thesis unfolding c by auto
qed

theorem same_line_block_inserts_after_witness:
  "breaks_in 0 False (''r := NewBasicRoom(A{W: 1}) // }'' @ [NL]) \<and>
   rewrite_lines
     [''go()'' @ [NL], ''r := NewBasicRoom(A{W: 1}) // }'' @ [NL], ''run(r)'' @ [NL]] =
     [''go()'' @ [NL], ''r := NewBasicRoom(A{W: 1}) // }'' @ [NL],
      CHR 0x09 # ''r.ConnectToEventBus(eventBus)'' @ [CHR 0x0A], ''run(r)'' @ [NL]]"
proof -
  have m: "decl_match (''r := NewBasicRoom(A{W: 1}) // }'' @ [NL]) = Some ''r''"
    by (simp add: pattern_defs)
  have b: "breaks_in 0 False (''r := NewBasicRoom(A{W: 1}) // }'' @ [NL])"
    by (simp add: brace_defs NL_def)
  have p: "\<forall>l \<in> set [''go()'' @ [NL]] \<union> set [''run(r)'' @ [NL]]. decl_match l = None"
    by (simp add: pattern_defs)
  from same_line_block_inserts_after[OF m b, of "[''go()'' @ [NL]]" "[''run(r)'' @ [NL]]"] b p
  show ?thesis by simp
qed

text \<open>
  Where the outer loop goes on after a declaration. At a matching declaration on
  line \<open>i\<close> the inner loop ends with some \<open>j\<close>, and the outer loop goes on at line
  \<open>j + 1\<close>. Whatever the lines between \<open>i\<close> and \<open>j\<close> are, matching declarations or not,
  and whether the scan ended at a brace or at the end of the file
  (\<open>j = length lines\<close>), the output is the output so far, the lines \<open>i\<close> to \<open>j - 1\<close>, at
  most one synthesized line, which names the identifier \<open>v\<close> of line \<open>i\<close> and comes
  only when the scan ended inside the file, and the rewrite of the lines from
  \<open>j + 1\<close> on. No line from \<open>i + 1\<close> to \<open>j\<close> reaches the pattern test.
\<close>

lemma scan_resumes_after_block:
  assumes "i < length lines" "decl_match (lines ! i) = Some v"
    and "inner_loop lines v i i
           \<lparr>bracket_count = 0, found_opening = False, output_lines = out @ [lines ! i]\<rparr> =
         (j, st)"
  shows "i \<le> j \<and> j \<le> length lines \<and>
    outer_loop lines i out = outer_loop lines (j + 1) (output_lines st) \<and>
    (\<exists>ins. (ins = [] \<or> ins = [connect_line v] \<and> j < length lines) \<and>
       outer_loop lines i out =
         out @ take (max 1 (j - i)) (drop i lines) @ ins @ rewrite_lines (drop (j + 1) lines))"
proof -
  from inner_loop_output[OF assms(3)] assms(1)
  obtain ins where io: "i \<le> j" "j \<le> length lines"
    "ins = [] \<or> ins = [connect_line v] \<and> j < length lines"
    "output_lines st = (out @ [lines ! i]) @ take (j - Suc i) (drop (Suc i) lines) @ ins"
    by auto
  have o: "outer_loop lines i out = outer_loop lines (j + 1) (output_lines st)"
    using assms by (subst outer_loop.simps) simp
  have m: "max 1 (j - i) = Suc (j - Suc i)" using io(1) by simp
  have "take (max 1 (j - i)) (drop i lines) = lines ! i # take (j - Suc i) (drop (Suc i) lines)"
    unfolding m using assms(1) by (simp add: Cons_nth_drop_Suc[symmetric])
  with io(4) have "output_lines st = out @ take (max 1 (j - i)) (drop i lines) @ ins"
    by simp
  with o io(1-3) show ?thesis by (auto simp: outer_loop_drop)
qed

lemma scan_resumes_after_block_example:
  "decl_match (''s := NewBasicRoom(B{})'' @ [NL]) = Some ''s'' \<and>
   inner_loop
     [''r := NewBasicRoom(A{'' @ [NL], ''s := NewBasicRoom(B{})'' @ [NL], ''})'' @ [NL],
      ''t := NewBasicRoom(C{})'' @ [NL]]
     ''r'' 0 0
     \<lparr>bracket_count = 0, found_opening = False,
        output_lines = [] @ [''r := NewBasicRoom(A{'' @ [NL]]\<rparr> =
     (2, \<lparr>bracket_count = 0, found_opening = True,
           output_lines = [''r := NewBasicRoom(A{'' @ [NL], ''s := NewBasicRoom(B{})'' @ [NL],
             connect_line ''r'']\<rparr>) \<and>
   outer_loop
     [''r := NewBasicRoom(A{'' @ [NL], ''s := NewBasicRoom(B{})'' @ [NL], ''})'' @ [NL],
      ''t := NewBasicRoom(C{})'' @ [NL]] 0 [] =
   outer_loop
     [''r := NewBasicRoom(A{'' @ [NL], ''s := NewBasicRoom(B{})'' @ [NL], ''})'' @ [NL],
      ''t := NewBasicRoom(C{})'' @ [NL]] 3
     [''r := NewBasicRoom(A{'' @ [NL], ''s := NewBasicRoom(B{})'' @ [NL], connect_line ''r'']"
proof -
  let ?lines = "[''r := NewBasicRoom(A{'' @ [NL], ''s := NewBasicRoom(B{})'' @ [NL], ''})'' @ [NL],
      ''t := NewBasicRoom(C{})'' @ [NL]]"
  have n: "decl_match (''s := NewBasicRoom(B{})'' @ [NL]) = Some ''s''"
    by (simp add: pattern_defs)
  have l: "0 < length ?lines" by simp
  have m: "decl_match (?lines ! 0) = Some ''r''"
    by (simp add: pattern_defs)
  have s: "inner_loop ?lines ''r'' 0 0
      \<lparr>bracket_count = 0, found_opening = False, output_lines = [] @ [?lines ! 0]\<rparr> =
      (2, \<lparr>bracket_count = 0, found_opening = True,
           output_lines = [''r := NewBasicRoom(A{'' @ [NL], ''s := NewBasicRoom(B{})'' @ [NL],
             connect_line ''r'']\<rparr>)"
    by (simp add: inner_loop.simps NL_def)
  from scan_resumes_after_block[OF l m s] n s show ?thesis by simp
qed

text \<open>
  Claim C10 says that a further matching declaration within the scanned block is
  copied to the output and triggers no insertion. It triggers none; but when it
  stands on the line where the scan ends, that line is the one the loop leaves out:
  here the declaration of \<open>s\<close> closes the scan for \<open>r\<close> and is not copied.
\<close>

theorem nested_declaration_on_last_scanned_line_lost:
  "decl_match (''s := NewBasicRoom(B{})'' @ [NL]) = Some ''s'' \<and>
   rewrite_lines
     [''r := NewBasicRoom('' @ [NL], ''s := NewBasicRoom(B{})'' @ [NL], ''after'' @ [NL]] =
     [''r := NewBasicRoom('' @ [NL], connect_line ''r'', ''after'' @ [NL]]"
  by (simp add: scan_defs pattern_defs)


end
